theory Spec2Isabelle
  imports Complex_Main
begin

section \<open>Invasion percolation: the program of the two notebooks\<close>

text \<open>
  The repository holds two notebooks with the same program. The first one (the
  implementation notebook) has no argument checks and an \<open>is_adjacent\<close> that only looks
  at the four neighbours. The second one (\<open>code/testing.ipynb\<close>) adds two \<open>assert\<close>
  statements to \<open>percolation\<close> and a test of the cell itself to \<open>is_adjacent\<close>. Everything
  else is the same text. The functions of the testing notebook keep their names here; the
  two functions of the implementation notebook that differ are \<open>is_adjacent0\<close> and
  \<open>percolation0\<close>, and \<open>choose_next0\<close> is the \<open>choose_next\<close> that calls \<open>is_adjacent0\<close>.
\<close>

subsection \<open>Errors, arrays, random sources\<close>

datatype error = AssertionError | IndexError | ValueError

text \<open>
  A two-dimensional NumPy array of integers: its shape and its items. Items are addressed
  by the normalised (non-negative) index pair; what \<open>item\<close> holds outside the shape is
  never read. NumPy keeps the items in a fixed-width integer type that the source does not
  choose (the platform's default); the model takes them as mathematical integers, which
  agrees with the only arithmetic the program does on them (\<open>1 + grid.max()\<close>) as long as
  that sum fits the width.
\<close>

record grid =
  shape :: "nat \<times> nat"
  item :: "int \<times> int \<Rightarrow> int"

type_synonym loc = "int \<times> int"

text \<open>An array literal \<open>np.array([[..], ..])\<close>.\<close>

definition array :: "int list list \<Rightarrow> grid" where
  "array rws =
     \<lparr>shape = (length rws, case rws of [] \<Rightarrow> 0 | r # _ \<Rightarrow> length r),
      item = (\<lambda>(x, y). rws ! nat x ! nat y)\<rparr>"

text \<open>
  NumPy indexing along an axis of length \<open>n\<close>: an index \<open>i\<close> with \<open>-n \<le> i < n\<close> is
  accepted, a negative one counts from the end, anything else raises IndexError.
\<close>

definition index_ok :: "nat \<Rightarrow> int \<Rightarrow> bool" where
  "index_ok n i \<longleftrightarrow> - int n \<le> i \<and> i < int n"

definition norm_index :: "nat \<Rightarrow> int \<Rightarrow> int" where
  "norm_index n i = (if i < 0 then i + int n else i)"

definition getitem :: "grid \<Rightarrow> loc \<Rightarrow> error + int" where
  "getitem g l =
     (case (shape g, l) of
        ((n, m), (x, y)) \<Rightarrow>
          if index_ok n x \<and> index_ok m y
          then Inr (item g (norm_index n x, norm_index m y))
          else Inl IndexError)"

text \<open>The index pairs of the nested loops \<open>for x in range(dim_x): for y in range(dim_y)\<close>,
  in the order the loops visit them.\<close>

definition indices :: "grid \<Rightarrow> loc list" where
  "indices g = (case shape g of (n, m) \<Rightarrow> List.product (map int [0..<n]) (map int [0..<m]))"

text \<open>\<open>grid.size\<close> and \<open>grid.max()\<close>; the latter raises ValueError on an array without items.\<close>

definition grid_size :: "grid \<Rightarrow> nat" where
  "grid_size g = (case shape g of (n, m) \<Rightarrow> n * m)"

definition grid_max :: "grid \<Rightarrow> error + int" where
  "grid_max g =
     (case map (item g) (indices g) of
        [] \<Rightarrow> Inl ValueError
      | v # vs \<Rightarrow> Inr (fold max vs v))"

text \<open>
  The program draws from two global generators: NumPy's (\<open>np.random.randint\<close>) and the
  one of Python's \<open>random\<close> module (\<open>random.choice\<close>). Each is modelled by the sequence
  of raw draws it will still deliver.
\<close>

record rand =
  np_random :: "nat \<Rightarrow> nat"
  py_random :: "nat \<Rightarrow> nat"

text \<open>
  \<open>random.choice(seq)\<close>: raises IndexError on an empty sequence (nothing is drawn then),
  otherwise returns \<open>seq[i]\<close> for an index \<open>i\<close> below \<open>len(seq)\<close> obtained from one draw.
\<close>

definition choice :: "'a list \<Rightarrow> rand \<Rightarrow> (error + 'a) \<times> rand" where
  "choice seq w =
     (if seq = [] then (Inl IndexError, w)
      else (Inr (seq ! (py_random w 0 mod length seq)),
            w\<lparr>py_random := (\<lambda>k. py_random w (Suc k))\<rparr>))"

subsection \<open>The grid functions\<close>

text \<open>
  \<^verbatim>\<open>
  def make_grid(size, spread):
      return np.random.randint(low=1, high=spread+1, size=(size, size))
  \<close>
  \<open>randint\<close> raises ValueError when \<open>low >= high\<close> or when a dimension is negative;
  otherwise it draws one value in \<open>[1..spread]\<close> per item. (It also rejects a \<open>high\<close>
  beyond the range of the array's integer type; with items taken as mathematical integers
  the model has no such bound.)
\<close>

definition make_grid :: "rand \<Rightarrow> int \<Rightarrow> int \<Rightarrow> (error + grid) \<times> rand" where
  "make_grid w sz spread =
     (if sz < 0 \<or> spread + 1 \<le> 1 then (Inl ValueError, w)
      else (Inr \<lparr>shape = (nat sz, nat sz),
                 item = (\<lambda>(x, y). 1 + int (np_random w (nat x * nat sz + nat y) mod nat spread))\<rparr>,
            w\<lparr>np_random := (\<lambda>k. np_random w (k + nat sz * nat sz))\<rparr>))"

text \<open>
  \<^verbatim>\<open>
  def fill(grid, loc):
      grid[loc] = 0
  \<close>
  The array is changed in place; the model returns the changed array.
\<close>

definition fill :: "grid \<Rightarrow> loc \<Rightarrow> error + grid" where
  "fill g l =
     (case (shape g, l) of
        ((n, m), (x, y)) \<Rightarrow>
          if index_ok n x \<and> index_ok m y
          then Inr (g\<lparr>item := (item g)((norm_index n x, norm_index m y) := 0)\<rparr>)
          else Inl IndexError)"

text \<open>
  \<^verbatim>\<open>
  def on_boundary(grid, loc):
      grid_x, grid_y = grid.shape
      loc_x, loc_y = loc
      return (loc_x == 0) or (loc_y == 0) or (loc_x == (grid_x -1)) or (loc_y == (grid_y -1))
  \<close>
\<close>

definition on_boundary :: "grid \<Rightarrow> loc \<Rightarrow> bool" where
  "on_boundary g l =
     (case (shape g, l) of
        ((grid_x, grid_y), (loc_x, loc_y)) \<Rightarrow>
          loc_x = 0 \<or> loc_y = 0 \<or> loc_x = int grid_x - 1 \<or> loc_y = int grid_y - 1)"

subsection \<open>The density\<close>

text \<open>
  The \<open>/\<close> of a NumPy integer and a Python integer is the division of IEEE doubles: the
  result is the double nearest to the exact quotient, ties going to the even significand.
  \<open>float_round q\<close> is that double, as a rational number, for \<open>q \<ge> 0\<close>: the quotient is
  scaled by a power of 2 into \<open>[2\<^sup>5\<^sup>2, 2\<^sup>5\<^sup>3)\<close>, rounded to an integer, and scaled
  back. (Quotients below \<open>2\<^sup>-\<^sup>1\<^sup>0\<^sup>2\<^sup>2\<close> or above \<open>2\<^sup>1\<^sup>0\<^sup>2\<^sup>4\<close>, where doubles are
  spaced differently, do not arise from the cell counts of an array that fits in memory.)
\<close>

definition round_half_even :: "rat \<Rightarrow> int" where
  "round_half_even x =
     (let f = \<lfloor>x\<rfloor>; r = x - of_int f
      in if r < 1 / 2 then f
         else if 1 / 2 < r then f + 1
         else if even f then f else f + 1)"

function scale_up :: "rat \<Rightarrow> nat \<Rightarrow> nat" where
  "scale_up q k = (if q \<le> 0 \<or> 1 \<le> q * 2 ^ k then k else scale_up q (Suc k))"
  by pat_completeness auto
termination
proof (relation "measure (\<lambda>(q, k). nat \<lceil>1 / q\<rceil> - 2 ^ k)")
  show "wf (measure (\<lambda>(q, k). nat \<lceil>1 / q\<rceil> - 2 ^ k))" by simp
next
  fix q :: rat and k :: nat
  assume a: "\<not> (q \<le> 0 \<or> 1 \<le> q * 2 ^ k)"
  then have q: "0 < q" and lt: "q * 2 ^ k < 1" by simp_all
  from lt q have "(2 :: rat) ^ k < 1 / q" by (simp add: pos_less_divide_eq mult.commute)
  also have "\<dots> \<le> of_int \<lceil>1 / q\<rceil>" by simp
  finally have "(2 :: rat) ^ k < of_int \<lceil>1 / q\<rceil>" .
  then have "(2 :: int) ^ k < \<lceil>1 / q\<rceil>"
    by (metis of_int_less_iff of_int_numeral of_int_power)
  then have "(2 :: nat) ^ k < nat \<lceil>1 / q\<rceil>"
    by (simp add: nat_less_iff)
  moreover have "(0 :: nat) < 2 ^ k" by simp
  ultimately have "nat \<lceil>1 / q\<rceil> - 2 * 2 ^ k < nat \<lceil>1 / q\<rceil> - 2 ^ k"
    by linarith
  then show "((q, Suc k), (q, k)) \<in> measure (\<lambda>(q, k). nat \<lceil>1 / q\<rceil> - 2 ^ k)"
    by simp
qed

function scale_down :: "rat \<Rightarrow> nat \<Rightarrow> nat" where
  "scale_down q k = (if q < 2 * 2 ^ k then k else scale_down q (Suc k))"
  by pat_completeness auto
termination
proof (relation "measure (\<lambda>(q, k). nat \<lceil>q\<rceil> - 2 ^ k)")
  show "wf (measure (\<lambda>(q, k). nat \<lceil>q\<rceil> - 2 ^ k))" by simp
next
  fix q :: rat and k :: nat
  assume a: "\<not> q < 2 * 2 ^ k"
  have "(2 :: rat) ^ k < 2 * 2 ^ k" by simp
  also have "\<dots> \<le> q" using a by simp
  also have "\<dots> \<le> of_int \<lceil>q\<rceil>" by simp
  finally have "(2 :: rat) ^ k < of_int \<lceil>q\<rceil>" .
  then have "(2 :: int) ^ k < \<lceil>q\<rceil>"
    by (metis of_int_less_iff of_int_numeral of_int_power)
  then have "(2 :: nat) ^ k < nat \<lceil>q\<rceil>"
    by (simp add: nat_less_iff)
  moreover have "(0 :: nat) < 2 ^ k" by simp
  ultimately have "nat \<lceil>q\<rceil> - 2 * 2 ^ k < nat \<lceil>q\<rceil> - 2 ^ k"
    by linarith
  then show "((q, Suc k), (q, k)) \<in> measure (\<lambda>(q, k). nat \<lceil>q\<rceil> - 2 ^ k)"
    by simp
qed

definition float_round :: "rat \<Rightarrow> rat" where
  "float_round q =
     (if q \<le> 0 then 0
      else if q < 1 then
        (let k = scale_up q 0 in of_int (round_half_even (q * 2 ^ (52 + k))) / 2 ^ (52 + k))
      else
        (let k = scale_down q 0 in of_int (round_half_even (q * 2 ^ 52 / 2 ^ k)) * 2 ^ k / 2 ^ 52))"

text \<open>
  \<^verbatim>\<open>
  def calculate_density(grid):
      filled = np.sum(grid == 0)
      return filled / grid.size
  \<close>
  The result is a float; on an array without items the division is \<open>0 / 0\<close>, which is
  \<open>nan\<close> for NumPy scalars.
\<close>

datatype pyfloat = Finite rat | NaN

definition count_filled :: "grid \<Rightarrow> nat" where
  "count_filled g = length (filter (\<lambda>l. item g l = 0) (indices g))"

definition calculate_density :: "grid \<Rightarrow> pyfloat" where
  "calculate_density g =
     (let filled = count_filled g
      in if grid_size g = 0 then NaN
         else Finite (float_round (rat_of_nat filled / rat_of_nat (grid_size g))))"

subsection \<open>Adjacency\<close>

text \<open>
  One statement \<open>if guard and (grid[l] == 0): return True\<close>, followed by the rest of the
  function. The item is read only when the guard holds.
\<close>

definition test_cell :: "grid \<Rightarrow> bool \<Rightarrow> loc \<Rightarrow> error + bool \<Rightarrow> error + bool" where
  "test_cell g guard l rest =
     (if guard
      then (case getitem g l of
              Inl e \<Rightarrow> Inl e
            | Inr v \<Rightarrow> if v = 0 then Inr True else rest)
      else rest)"

text \<open>
  The implementation notebook:
  \<^verbatim>\<open>
  def is_adjacent(grid, loc):
      x, y = loc
      max_x, max_y = grid.shape
      if (x > 0) and (grid[x-1, y] == 0): return True
      if (y > 0) and (grid[x, y-1] == 0): return True
      if (x < max_x-1) and (grid[x+1, y] == 0): return True
      if (y < max_y-1) and (grid[x, y+1] == 0): return True
      return False
  \<close>
\<close>

definition is_adjacent0 :: "grid \<Rightarrow> loc \<Rightarrow> error + bool" where
  "is_adjacent0 g l =
     (case (l, shape g) of
        ((x, y), (max_x, max_y)) \<Rightarrow>
          test_cell g (x > 0) (x - 1, y)
         (test_cell g (y > 0) (x, y - 1)
         (test_cell g (x < int max_x - 1) (x + 1, y)
         (test_cell g (y < int max_y - 1) (x, y + 1)
         (Inr False)))))"

text \<open>
  The testing notebook puts \<open>if grid[loc] == 0: return False\<close> in front of the same four
  tests.
\<close>

definition is_adjacent :: "grid \<Rightarrow> loc \<Rightarrow> error + bool" where
  "is_adjacent g l =
     (case getitem g l of
        Inl e \<Rightarrow> Inl e
      | Inr v \<Rightarrow> if v = 0 then Inr False else is_adjacent0 g l)"

subsection \<open>Choosing the next cell\<close>

text \<open>
  \<^verbatim>\<open>
  def choose_next(grid):
      candidates = []
      value = 1 + grid.max()
      dim_x, dim_y = grid.shape
      for x in range(dim_x):
          for y in range(dim_y):
              if grid[x, y] == 0:
                  pass
              elif is_adjacent(grid, (x, y)):
                  if grid[x, y] < value:
                      value = grid[x, y]
                      candidates = [(x, y)]
                  elif grid[x, y] == value:
                      candidates.append((x, y))
      return random.choice(candidates)
  \<close>
  The text is the same in both notebooks; what differs is the \<open>is_adjacent\<close> it calls,
  which is the parameter \<open>adj\<close> below. \<open>scan\<close> is the pair of loops over the index pairs
  still to visit, with the loop variables \<open>value\<close> and \<open>candidates\<close>.
\<close>

fun scan :: "(grid \<Rightarrow> loc \<Rightarrow> error + bool) \<Rightarrow> grid \<Rightarrow> loc list \<Rightarrow> int \<times> loc list
             \<Rightarrow> error + int \<times> loc list" where
  "scan adj g [] st = Inr st"
| "scan adj g (l # ls) (val, candidates) =
     (case getitem g l of
        Inl e \<Rightarrow> Inl e
      | Inr v \<Rightarrow>
          if v = 0 then scan adj g ls (val, candidates)
          else (case adj g l of
                  Inl e \<Rightarrow> Inl e
                | Inr a \<Rightarrow>
                    if a then
                      if v < val then scan adj g ls (v, [l])
                      else if v = val then scan adj g ls (val, candidates @ [l])
                      else scan adj g ls (val, candidates)
                    else scan adj g ls (val, candidates)))"

text \<open>
  \<open>build_candidates\<close> is the function up to the last line: the list \<open>candidates\<close> that
  is handed to \<open>random.choice\<close>.
\<close>

definition build_candidates :: "(grid \<Rightarrow> loc \<Rightarrow> error + bool) \<Rightarrow> grid \<Rightarrow> error + loc list" where
  "build_candidates adj g =
     (case grid_max g of
        Inl e \<Rightarrow> Inl e
      | Inr m \<Rightarrow>
          (case scan adj g (indices g) (1 + m, []) of
             Inl e \<Rightarrow> Inl e
           | Inr (val, candidates) \<Rightarrow> Inr candidates))"

text \<open>
  The function receives the array object and could change it, so the model returns the
  array as the call leaves it, next to the result and the generators.
\<close>

definition choose_next_with ::
    "(grid \<Rightarrow> loc \<Rightarrow> error + bool) \<Rightarrow> grid \<Rightarrow> rand \<Rightarrow> (error + loc) \<times> grid \<times> rand" where
  "choose_next_with adj g w =
     (case build_candidates adj g of
        Inl e \<Rightarrow> (Inl e, g, w)
      | Inr candidates \<Rightarrow> (case choice candidates w of (r, w') \<Rightarrow> (r, g, w')))"

definition choose_next0 :: "grid \<Rightarrow> rand \<Rightarrow> (error + loc) \<times> grid \<times> rand" where
  "choose_next0 = choose_next_with is_adjacent0"

definition choose_next :: "grid \<Rightarrow> rand \<Rightarrow> (error + loc) \<times> grid \<times> rand" where
  "choose_next = choose_next_with is_adjacent"

subsection \<open>The loop\<close>

text \<open>
  The loop of \<open>percolation\<close> ends because every iteration fills a cell that was not
  filled. The facts that show it come first: a location in bounds is read and written
  without error, filling an unfilled cell raises the number of filled cells by one, and
  \<open>choose_next\<close> (with any adjacency test) only returns cells that the scan has read as
  non-zero.
\<close>

text \<open>A location is in bounds when both coordinates lie in \<open>[0, N)\<close>.\<close>

definition in_bounds :: "grid \<Rightarrow> loc \<Rightarrow> bool" where
  "in_bounds g l =
     (case (shape g, l) of
        ((n, m), (x, y)) \<Rightarrow> 0 \<le> x \<and> x < int n \<and> 0 \<le> y \<and> y < int m)"

lemma getitem_in_bounds: "in_bounds g l \<Longrightarrow> getitem g l = Inr (item g l)"
  by (auto simp: in_bounds_def getitem_def index_ok_def norm_index_def split: prod.splits)

lemma set_indices: "set (indices g) = {l. in_bounds g l}"
proof -
  obtain n m where s: "shape g = (n, m)" by (cases "shape g")
  have "int ` {0..<k} = {i. 0 \<le> i \<and> i < int k}" for k
    by (auto simp: image_iff) (metis nat_less_iff int_nat_eq atLeastLessThan_iff zero_le)
  then show ?thesis
    by (auto simp: indices_def in_bounds_def s)
qed

lemma distinct_indices: "distinct (indices g)"
  by (auto simp: indices_def distinct_product distinct_map inj_on_def split: prod.splits)

lemma length_indices: "length (indices g) = grid_size g"
  by (simp add: indices_def grid_size_def split: prod.splits)

lemma count_filled_le: "count_filled g \<le> grid_size g"
  unfolding count_filled_def length_indices [symmetric] by (rule length_filter_le)

lemma count_filled_card: "count_filled g = card {l. in_bounds g l \<and> item g l = 0}"
proof -
  have "{l. item g l = 0} \<inter> set (indices g) = {l. in_bounds g l \<and> item g l = 0}"
    by (auto simp: set_indices)
  then show ?thesis
    by (simp add: count_filled_def distinct_length_filter distinct_indices)
qed

lemma finite_in_bounds: "finite {l. in_bounds g l}"
  using set_indices [of g, symmetric] by simp

lemma fill_in_bounds:
  "in_bounds g c \<Longrightarrow> fill g c = Inr (g\<lparr>item := (item g)(c := 0)\<rparr>)"
  by (auto simp: fill_def in_bounds_def index_ok_def norm_index_def split: prod.splits)

lemma in_bounds_item_update [simp]: "in_bounds (g\<lparr>item := f\<rparr>) l = in_bounds g l"
  by (simp add: in_bounds_def)

lemma count_filled_fill:
  assumes "in_bounds g c" and "item g c \<noteq> 0"
  shows "count_filled (g\<lparr>item := (item g)(c := 0)\<rparr>) = Suc (count_filled g)"
proof -
  let ?A = "{l. in_bounds g l \<and> item g l = 0}"
  have "{l. in_bounds g l \<and> ((item g)(c := 0)) l = 0} = insert c ?A"
    using assms by auto
  moreover have "finite ?A" using finite_in_bounds [of g] by simp
  moreover have "c \<notin> ?A" using assms by simp
  ultimately show ?thesis by (simp add: count_filled_card)
qed

lemma grid_size_item_update [simp]: "grid_size (g\<lparr>item := f\<rparr>) = grid_size g"
  by (simp add: grid_size_def)

text \<open>Whatever adjacency test is used, the scan only collects cells it has read as
  non-zero.\<close>

lemma scan_collects_unfilled:
  "scan adj g ls (v0, cs0) = Inr (v, cs) \<Longrightarrow>
   set cs \<subseteq> set cs0 \<union> {l \<in> set ls. \<exists>x. getitem g l = Inr x \<and> x \<noteq> 0}"
proof (induction ls arbitrary: v0 cs0)
  case Nil
  then show ?case by simp
next
  case (Cons l ls)
  from Cons.prems show ?case
    by (auto split: sum.splits if_splits dest!: Cons.IH)
qed

lemma choose_next_with_unfilled:
  assumes "choose_next_with adj g w = (Inr c, g1, w1)"
  shows "g1 = g \<and> in_bounds g c \<and> item g c \<noteq> 0"
proof -
  from assms obtain cs where b: "build_candidates adj g = Inr cs"
    and ch: "choice cs w = (Inr c, w1)" and g1: "g1 = g"
    by (auto simp: choose_next_with_def split: sum.splits prod.splits)
  from b obtain m v where "scan adj g (indices g) (1 + m, []) = Inr (v, cs)"
    by (auto simp: build_candidates_def split: sum.splits)
  from scan_collects_unfilled [OF this]
  have sub: "set cs \<subseteq> {l. in_bounds g l \<and> (\<exists>x. getitem g l = Inr x \<and> x \<noteq> 0)}"
    by (auto simp: set_indices)
  from ch have "c \<in> set cs"
    by (auto simp: choice_def split: if_splits)
  with sub have "in_bounds g c" "\<exists>x. getitem g c = Inr x \<and> x \<noteq> 0" by auto
  then show ?thesis using g1 by (auto simp: getitem_in_bounds)
qed

lemma choose_next_with_step:
  assumes "choose_next_with adj g w = (Inr c, g1, w1)"
  shows "fill g1 c = Inr (g\<lparr>item := (item g)(c := 0)\<rparr>)
       \<and> count_filled (g\<lparr>item := (item g)(c := 0)\<rparr>) = Suc (count_filled g)"
  using choose_next_with_unfilled [OF assms]
  by (simp add: fill_in_bounds count_filled_fill)

text \<open>
  The loop of \<open>percolation\<close>, in both notebooks:
  \<^verbatim>\<open>
      while not on_boundary(grid, chosen):
          chosen = choose_next(grid)
          fill(grid, chosen)
  \<close>
  The last argument is not in the source: it records the cells the loop has filled, in
  the order it filled them. The loop ends normally with the grid, or with the error
  raised by \<open>choose_next\<close> or \<open>fill\<close>.
\<close>

function grow :: "(grid \<Rightarrow> loc \<Rightarrow> error + bool) \<Rightarrow> grid \<Rightarrow> loc \<Rightarrow> rand \<Rightarrow> loc list
                   \<Rightarrow> (error + grid \<times> loc list) \<times> rand" where
  "grow adj g chosen w filled =
     (if on_boundary g chosen then (Inr (g, filled), w)
      else (case choose_next_with adj g w of
              (Inl e, g1, w1) \<Rightarrow> (Inl e, w1)
            | (Inr c, g1, w1) \<Rightarrow>
                (case fill g1 c of
                   Inl e \<Rightarrow> (Inl e, w1)
                 | Inr g2 \<Rightarrow> grow adj g2 c w1 (filled @ [c]))))"
  by pat_completeness auto
termination
proof (relation "measure (\<lambda>(adj, g, chosen, w, filled). grid_size g - count_filled g)")
  show "wf (measure (\<lambda>(adj, g, chosen, w, filled). grid_size g - count_filled g))"
    by simp
next
  fix adj g chosen w filled x xa y xb ya g2
  assume a: "(x, y) = choose_next_with adj g w" "x = Inr xa" "(xb, ya) = y" "fill xb xa = Inr g2"
  then have c: "choose_next_with adj g w = (Inr xa, xb, ya)" by simp
  from choose_next_with_step [OF c] a(4)
  have g2: "g2 = g\<lparr>item := (item g)(xa := 0)\<rparr>" and n: "count_filled g2 = Suc (count_filled g)"
    by simp_all
  have "count_filled g2 \<le> grid_size g2" by (rule count_filled_le)
  with n g2 have "grid_size g2 - count_filled g2 < grid_size g - count_filled g"
    by simp
  then show "((adj, g2, xa, ya, filled @ [xa]), (adj, g, chosen, w, filled))
       \<in> measure (\<lambda>(adj, g, chosen, w, filled). grid_size g - count_filled g)"
    by simp
qed

declare grow.simps [simp del]

subsection \<open>The driver\<close>

text \<open>
  Both notebooks create the grid, fill the centre and run the loop; \<open>simulate\<close> is this
  common part, for a given centre. It returns the final grid with the record of the cells
  the loop filled.
\<close>

definition simulate :: "(grid \<Rightarrow> loc \<Rightarrow> error + bool) \<Rightarrow> rand \<Rightarrow> int \<Rightarrow> int \<Rightarrow> loc
                         \<Rightarrow> (error + grid \<times> loc list) \<times> rand" where
  "simulate adj w sz spread chosen =
     (case make_grid w sz spread of
        (Inl e, w1) \<Rightarrow> (Inl e, w1)
      | (Inr g, w1) \<Rightarrow>
          (case fill g chosen of
             Inl e \<Rightarrow> (Inl e, w1)
           | Inr g1 \<Rightarrow> grow adj g1 chosen w1 []))"

text \<open>The last line, \<open>return grid, calculate_density(grid)\<close>.\<close>

definition report :: "(error + grid \<times> loc list) \<times> rand \<Rightarrow> (error + grid \<times> pyfloat) \<times> rand" where
  "report res =
     (case res of
        (Inl e, w) \<Rightarrow> (Inl e, w)
      | (Inr (g, filled), w) \<Rightarrow> (Inr (g, calculate_density g), w))"

text \<open>
  The implementation notebook, for integer arguments:
  \<^verbatim>\<open>
  def percolation(size, spread):
      grid = make_grid(size, spread)
      middle = size // 2
      chosen = (middle, middle)
      fill(grid, chosen)
      while not on_boundary(grid, chosen):
          chosen = choose_next(grid)
          fill(grid, chosen)
      return grid, calculate_density(grid)
  \<close>
\<close>

definition percolation0 :: "rand \<Rightarrow> int \<Rightarrow> int \<Rightarrow> (error + grid \<times> pyfloat) \<times> rand" where
  "percolation0 w sz spread =
     (let middle = sz div 2
      in report (simulate is_adjacent0 w sz spread (middle, middle)))"

text \<open>
  The testing notebook checks its arguments first:
  \<^verbatim>\<open>
  def percolation(size, spread):
      assert (type(size) == int) and ((size > 0) and (size % 2 == 1)), 'size must be positive odd integer'
      assert (type(spread) == int) and (spread > 0), 'spread must be non-negative integer'
      grid = make_grid(size, spread)
      chosen = (int(size/2), int(size/2))
      fill(grid, chosen)
      while not on_boundary(grid, chosen):
          chosen = choose_next(grid)
          fill(grid, chosen)
      return grid, calculate_density(grid)
  \<close>
  An argument is an integer or a value of another type (a float, a string, a bool,
  \<open>None\<close>), of which the checks only see that its type is not \<open>int\<close>. \<open>int(size/2)\<close>
  truncates the float quotient towards zero; the quotient is exact for every size below
  \<open>2^53\<close>.
\<close>

datatype pyval = PyInt int | NonInt

definition int_half :: "int \<Rightarrow> int" where
  "int_half sz = (if 0 \<le> sz then sz div 2 else - ((- sz) div 2))"

definition percolation :: "rand \<Rightarrow> pyval \<Rightarrow> pyval \<Rightarrow> (error + grid \<times> pyfloat) \<times> rand" where
  "percolation w size_arg spread_arg =
     (case size_arg of
        NonInt \<Rightarrow> (Inl AssertionError, w)
      | PyInt sz \<Rightarrow>
          if \<not> (sz > 0 \<and> sz mod 2 = 1) then (Inl AssertionError, w)
          else (case spread_arg of
                  NonInt \<Rightarrow> (Inl AssertionError, w)
                | PyInt spread \<Rightarrow>
                    if \<not> spread > 0 then (Inl AssertionError, w)
                    else report (simulate is_adjacent w sz spread (int_half sz, int_half sz))))"

subsection \<open>The vocabulary of the specification\<close>

text \<open>
  The neighbours of a location are the up-to-4 orthogonal locations that are in bounds. A
  candidate is an unfilled cell in bounds with a filled neighbour.
\<close>

definition neighbours :: "grid \<Rightarrow> loc \<Rightarrow> loc list" where
  "neighbours g l =
     (case l of (x, y) \<Rightarrow> filter (in_bounds g) [(x - 1, y), (x, y - 1), (x + 1, y), (x, y + 1)])"

definition has_filled_neighbour :: "grid \<Rightarrow> loc \<Rightarrow> bool" where
  "has_filled_neighbour g l = list_ex (\<lambda>n. item g n = 0) (neighbours g l)"

definition candidate :: "grid \<Rightarrow> loc \<Rightarrow> bool" where
  "candidate g l \<longleftrightarrow> in_bounds g l \<and> item g l \<noteq> 0 \<and> has_filled_neighbour g l"

text \<open>
  The candidates of a grid, and those of them whose value is the minimum over all
  candidates.
\<close>

definition frontier :: "grid \<Rightarrow> loc list" where
  "frontier g = filter (candidate g) (indices g)"

definition lowest :: "grid \<Rightarrow> loc list" where
  "lowest g = filter (\<lambda>l. list_all (\<lambda>d. item g l \<le> item g d) (frontier g)) (frontier g)"

text \<open>
  \<open>random.choice\<close> takes its index uniformly from \<open>range(len(seq))\<close>. The probability
  that it returns \<open>a\<close> is therefore the number of indices at which a draw makes it return
  \<open>a\<close>, over the number of indices. \<open>draw i\<close> are generators whose next draw is \<open>i\<close>.
\<close>

definition draw :: "nat \<Rightarrow> rand" where
  "draw i = \<lparr>np_random = (\<lambda>_. 0), py_random = (\<lambda>_. i)\<rparr>"



subsection \<open>Runs of the loop\<close>

text \<open>
  \<open>filled_cell g c\<close> is the grid after \<open>fill(grid, c)\<close> for a location in bounds,
  \<open>grid_after g cs\<close> the grid after filling the locations \<open>cs\<close> one after the other, and
  \<open>fresh g cs\<close> says that each location of \<open>cs\<close> is an unfilled cell in bounds at the
  moment its turn comes.
\<close>

definition filled_cell :: "grid \<Rightarrow> loc \<Rightarrow> grid" where
  "filled_cell g c = g\<lparr>item := (item g)(c := 0)\<rparr>"

fun grid_after :: "grid \<Rightarrow> loc list \<Rightarrow> grid" where
  "grid_after g [] = g"
| "grid_after g (c # cs) = grid_after (filled_cell g c) cs"

fun fresh :: "grid \<Rightarrow> loc list \<Rightarrow> bool" where
  "fresh g [] = True"
| "fresh g (c # cs) = (in_bounds g c \<and> item g c \<noteq> 0 \<and> fresh (filled_cell g c) cs)"

text \<open>
  The state of the loop at its test: the grid is square, the cell chosen last is in
  bounds and filled, and every other cell on the boundary is unfilled.
\<close>

definition loop_inv :: "grid \<Rightarrow> loc \<Rightarrow> bool" where
  "loop_inv g chosen \<longleftrightarrow>
     fst (shape g) = snd (shape g) \<and> in_bounds g chosen \<and> item g chosen = 0
     \<and> (\<forall>l. in_bounds g l \<and> on_boundary g l \<and> l \<noteq> chosen \<longrightarrow> item g l \<noteq> 0)"

subsection \<open>Example grids\<close>

text \<open>The two grids of \<open>test_choose_next\<close>, the grid of \<open>test_is_adjacent\<close>, and three
  more: one with three candidates of the lowest value, one with a filled cell next to a
  filled cell, one that is filled completely.\<close>

definition grid_a :: grid where
  "grid_a = array [[9, 1, 9], [9, 0, 9], [9, 9, 9]]"

definition grid_b :: grid where
  "grid_b = array [[9, 2, 9], [9, 0, 9], [9, 1, 9]]"

definition grid_c :: grid where
  "grid_c = array [[0, 1, 2], [3, 4, 5], [6, 7, 8]]"


definition grid_pair :: grid where
  "grid_pair = array [[0, 0], [1, 1]]"


text \<open>A 5 x 5 grid as a run can leave it, with 7 filled cells.\<close>

definition grid_seven :: grid where
  "grid_seven = array [[1, 1, 1, 1, 1], [1, 1, 1, 1, 1], [0, 0, 0, 0, 1], [1, 0, 0, 0, 1], [1, 1, 1, 1, 1]]"

section \<open>Properties\<close>

subsection \<open>Rounding\<close>

declare scale_up.simps [simp del] scale_down.simps [simp del]

lemma round_half_even_bounds: "\<lfloor>x\<rfloor> \<le> round_half_even x \<and> round_half_even x \<le> \<lceil>x\<rceil>"
proof -
  have "\<lfloor>x\<rfloor> + 1 \<le> \<lceil>x\<rceil>" if "x \<noteq> of_int \<lfloor>x\<rfloor>"
    using that by (metis ceiling_altdef order_refl)
  moreover have "\<lfloor>x\<rfloor> \<le> \<lceil>x\<rceil>" by (rule floor_le_ceiling)
  ultimately show ?thesis
    by (auto simp: round_half_even_def Let_def)
qed

lemma round_half_even_error: "\<bar>of_int (round_half_even x) - x\<bar> \<le> 1 / 2"
proof -
  have "of_int \<lfloor>x\<rfloor> \<le> x" "x < of_int \<lfloor>x\<rfloor> + 1" by linarith+
  then show ?thesis
    by (auto simp: round_half_even_def Let_def abs_le_iff)
qed

lemma scale_up_ge: "0 < q \<Longrightarrow> 1 \<le> q * 2 ^ scale_up q k"
proof (induction q k rule: scale_up.induct)
  case (1 q k)
  then show ?case
    by (cases "1 \<le> q * 2 ^ k") (simp_all add: scale_up.simps [of q k])
qed

text \<open>Correct rounding of a quotient in \<open>(0, 1]\<close>: the result is positive, at most 1, and
  its relative error is at most \<open>2\<^sup>-\<^sup>5\<^sup>3\<close>.\<close>

lemma float_round_unit:
  assumes "0 < q" and "q \<le> 1"
  shows "0 < float_round q \<and> float_round q \<le> 1 \<and> \<bar>float_round q - q\<bar> \<le> q / 2 ^ 53"
proof (cases "q = 1")
  case True
  have "scale_down 1 0 = 0" by (simp add: scale_down.simps [of 1 0])
  then have "float_round 1 = 1" by (simp add: float_round_def round_half_even_def)
  with True show ?thesis by simp
next
  case False
  with assms have lt: "q < 1" by simp
  define k where "k = scale_up q 0"
  define x where "x = q * 2 ^ (52 + k)"
  have fr: "float_round q = of_int (round_half_even x) / 2 ^ (52 + k)"
    using assms(1) lt by (simp add: float_round_def k_def x_def Let_def)
  have ge: "1 \<le> q * 2 ^ k" unfolding k_def using assms(1) by (rule scale_up_ge)
  have "(2 :: rat) ^ 52 * 1 \<le> 2 ^ 52 * (q * 2 ^ k)"
    using ge by (intro mult_left_mono) simp_all
  then have x52: "2 ^ 52 \<le> x" by (simp add: x_def power_add mult_ac)
  have "x \<le> 1 * 2 ^ (52 + k)" unfolding x_def using assms(2) by (intro mult_right_mono) simp_all
  then have xle: "x \<le> of_int (2 ^ (52 + k))" by simp
  have "(2 :: int) ^ 52 \<le> \<lfloor>x\<rfloor>" using x52 by (simp add: le_floor_iff)
  with round_half_even_bounds [of x] have m52: "2 ^ 52 \<le> round_half_even x" by linarith
  have "\<lceil>x\<rceil> \<le> 2 ^ (52 + k)" using xle by (simp only: ceiling_le_iff)
  with round_half_even_bounds [of x] have mle: "round_half_even x \<le> 2 ^ (52 + k)" by linarith
  have pos: "0 < float_round q" using m52 by (simp add: fr)
  have "(of_int (round_half_even x) :: rat) \<le> of_int (2 ^ (52 + k))"
    using mle by (simp only: of_int_le_iff)
  then have le1: "float_round q \<le> 1" by (simp add: fr pos_divide_le_eq)
  have "float_round q - q = (of_int (round_half_even x) - x) / 2 ^ (52 + k)"
    by (simp add: fr x_def diff_divide_distrib)
  then have "\<bar>float_round q - q\<bar> = \<bar>of_int (round_half_even x) - x\<bar> / 2 ^ (52 + k)"
    by (simp add: abs_divide)
  also have "\<dots> \<le> (1 / 2) / 2 ^ (52 + k)"
    using round_half_even_error [of x] by (intro divide_right_mono) simp_all
  also have "\<dots> = 1 / (2 ^ 53 * 2 ^ k)" by (simp add: power_add)
  also have "\<dots> \<le> (q * 2 ^ k) / (2 ^ 53 * 2 ^ k)"
    using ge by (intro divide_right_mono) simp_all
  also have "\<dots> = q / 2 ^ 53" by simp
  finally show ?thesis using pos le1 by simp
qed

subsection \<open>Adjacency and the scan\<close>

lemma test_cell_in_bounds:
  "(guard \<Longrightarrow> in_bounds g l) \<Longrightarrow>
   test_cell g guard l rest = (if guard \<and> item g l = 0 then Inr True else rest)"
  by (auto simp: test_cell_def getitem_in_bounds)

lemma is_adjacent0_in_bounds:
  assumes "in_bounds g l"
  shows "is_adjacent0 g l = Inr (has_filled_neighbour g l)"
proof -
  obtain x y where l: "l = (x, y)" by (cases l)
  obtain n m where s: "shape g = (n, m)" by (cases "shape g")
  from assms l s have b: "0 \<le> x" "x < int n" "0 \<le> y" "y < int m"
    by (auto simp: in_bounds_def)
  have i1: "in_bounds g (x - 1, y) \<longleftrightarrow> x > 0"
    and i2: "in_bounds g (x, y - 1) \<longleftrightarrow> y > 0"
    and i3: "in_bounds g (x + 1, y) \<longleftrightarrow> x < int n - 1"
    and i4: "in_bounds g (x, y + 1) \<longleftrightarrow> y < int m - 1"
    using b s by (auto simp: in_bounds_def)
  have t1: "test_cell g (x > 0) (x - 1, y) r
      = (if x > 0 \<and> item g (x - 1, y) = 0 then Inr True else r)" for r
    by (rule test_cell_in_bounds) (simp add: i1)
  have t2: "test_cell g (y > 0) (x, y - 1) r
      = (if y > 0 \<and> item g (x, y - 1) = 0 then Inr True else r)" for r
    by (rule test_cell_in_bounds) (simp add: i2)
  have t3: "test_cell g (x < int n - 1) (x + 1, y) r
      = (if x < int n - 1 \<and> item g (x + 1, y) = 0 then Inr True else r)" for r
    by (rule test_cell_in_bounds) (simp add: i3)
  have t4: "test_cell g (y < int m - 1) (x, y + 1) r
      = (if y < int m - 1 \<and> item g (x, y + 1) = 0 then Inr True else r)" for r
    by (rule test_cell_in_bounds) (simp add: i4)
  have "is_adjacent0 g l = Inr ((x > 0 \<and> item g (x - 1, y) = 0) \<or> (y > 0 \<and> item g (x, y - 1) = 0)
     \<or> (x < int n - 1 \<and> item g (x + 1, y) = 0) \<or> (y < int m - 1 \<and> item g (x, y + 1) = 0))"
    unfolding is_adjacent0_def l s by (simp add: t1 t2 t3 t4)
  moreover have "has_filled_neighbour g l \<longleftrightarrow> ((x > 0 \<and> item g (x - 1, y) = 0) \<or> (y > 0 \<and> item g (x, y - 1) = 0)
     \<or> (x < int n - 1 \<and> item g (x + 1, y) = 0) \<or> (y < int m - 1 \<and> item g (x, y + 1) = 0))"
    unfolding has_filled_neighbour_def neighbours_def l by (simp add: i1 i2 i3 i4)
  ultimately show ?thesis by simp
qed

lemma is_adjacent_in_bounds:
  "in_bounds g l \<Longrightarrow> is_adjacent g l = Inr (item g l \<noteq> 0 \<and> has_filled_neighbour g l)"
  by (simp add: is_adjacent_def getitem_in_bounds is_adjacent0_in_bounds)

lemma is_adjacent_unfilled:
  "getitem g l = Inr v \<Longrightarrow> v \<noteq> 0 \<Longrightarrow> is_adjacent g l = is_adjacent0 g l"
  by (simp add: is_adjacent_def)

lemma scan_is_adjacent0: "scan is_adjacent0 g ls st = scan is_adjacent g ls st"
proof (induction ls arbitrary: st)
  case Nil
  show ?case by simp
next
  case (Cons l ls)
  obtain val candidates where st: "st = (val, candidates)" by (cases st)
  show ?case
  proof (cases "getitem g l")
    case (Inl e)
    then show ?thesis by (simp add: st)
  next
    case (Inr v)
    show ?thesis
    proof (cases "v = 0")
      case True
      with Inr show ?thesis by (simp add: st Cons.IH)
    next
      case False
      with Inr have "is_adjacent g l = is_adjacent0 g l"
        by (rule is_adjacent_unfilled)
      with Inr False show ?thesis by (simp add: st Cons.IH split: sum.splits)
    qed
  qed
qed

lemma build_candidates_is_adjacent0:
  "build_candidates is_adjacent0 = build_candidates is_adjacent"
  by (intro ext) (simp add: build_candidates_def scan_is_adjacent0 cong: sum.case_cong)

lemma choose_next0_eq: "choose_next0 = choose_next"
  by (intro ext)
    (simp add: choose_next0_def choose_next_def choose_next_with_def build_candidates_is_adjacent0)


lemma fold_min_Min: "fold min xs (v::int) = Min (insert v (set xs))"
  using Min.set_eq_fold [of v xs] by simp

lemma fold_min_le_init: "fold min xs (v::int) \<le> v"
  by (simp add: fold_min_Min)

lemma fold_min_le_elem: "x \<in> set xs \<Longrightarrow> fold min xs (v::int) \<le> x"
  by (simp add: fold_min_Min)

lemma fold_min_cases: "fold min xs (v::int) = v \<or> fold min xs v \<in> set xs"
  using Min_in [of "insert v (set xs)"] by (auto simp: fold_min_Min)

lemma fold_max_Max: "fold max xs (v::int) = Max (insert v (set xs))"
  using Max.set_eq_fold [of v xs] by simp

lemma scan_is_adjacent:
  "set ls \<subseteq> {l. in_bounds g l} \<Longrightarrow>
   scan is_adjacent g ls (v0, cs0) =
     Inr (let q = filter (candidate g) ls;
              v = fold min (map (item g) q) v0
          in (v, (if v < v0 then [] else cs0) @ filter (\<lambda>l. item g l = v) q))"
proof (induction ls arbitrary: v0 cs0)
  case Nil
  show ?case by simp
next
  case (Cons l ls)
  from Cons.prems have b: "in_bounds g l" and sub: "set ls \<subseteq> {l. in_bounds g l}"
    by auto
  note IH = Cons.IH [OF sub]
  let ?q = "filter (candidate g) ls"
  have adj: "is_adjacent g l = Inr (candidate g l)"
    using b by (simp add: is_adjacent_in_bounds candidate_def)
  show ?case
  proof (cases "candidate g l")
    case False
    then have "scan is_adjacent g (l # ls) (v0, cs0) = scan is_adjacent g ls (v0, cs0)"
      using b adj by (simp add: getitem_in_bounds)
    with False show ?thesis by (simp add: IH)
  next
    case True
    then have nz: "item g l \<noteq> 0" by (simp add: candidate_def)
    consider (less) "item g l < v0" | (eq) "item g l = v0" | (greater) "v0 < item g l"
      by linarith
    then show ?thesis
    proof cases
      case less
      let ?v = "fold min (map (item g) ?q) (item g l)"
      have le: "?v \<le> item g l" by (rule fold_min_le_init)
      have "scan is_adjacent g (l # ls) (v0, cs0) = scan is_adjacent g ls (item g l, [l])"
        using b adj True nz less by (simp add: getitem_in_bounds)
      moreover have "min (item g l) v0 = item g l" using less by simp
      ultimately show ?thesis using True less le by (auto simp: IH Let_def)
    next
      case eq
      let ?v = "fold min (map (item g) ?q) v0"
      have le: "?v \<le> v0" by (rule fold_min_le_init)
      have "scan is_adjacent g (l # ls) (v0, cs0) = scan is_adjacent g ls (v0, cs0 @ [l])"
        using b adj True nz eq by (simp add: getitem_in_bounds)
      moreover have "min (item g l) v0 = v0" using eq by simp
      ultimately show ?thesis using True eq le by (auto simp: IH Let_def)
    next
      case greater
      let ?v = "fold min (map (item g) ?q) v0"
      have le: "?v \<le> v0" by (rule fold_min_le_init)
      have "scan is_adjacent g (l # ls) (v0, cs0) = scan is_adjacent g ls (v0, cs0)"
        using b adj True nz greater by (simp add: getitem_in_bounds)
      moreover have "min (item g l) v0 = v0" using greater by simp
      ultimately show ?thesis using True greater le by (auto simp: IH Let_def)
    qed
  qed
qed

lemma grid_max_empty: "indices g = [] \<Longrightarrow> grid_max g = Inl ValueError"
  by (simp add: grid_max_def)

lemma grid_max_nonempty:
  assumes "indices g \<noteq> []"
  obtains m where "grid_max g = Inr m" and "\<And>l. in_bounds g l \<Longrightarrow> item g l \<le> m"
proof -
  from assms obtain l ls where i: "indices g = l # ls" by (cases "indices g") auto
  let ?m = "fold max (map (item g) ls) (item g l)"
  have "grid_max g = Inr ?m" by (simp add: grid_max_def i)
  moreover have "item g d \<le> ?m" if "in_bounds g d" for d
  proof -
    from that have "d \<in> set (l # ls)" using set_indices [of g] i by simp
    then show ?thesis by (auto simp: fold_max_Max)
  qed
  ultimately show ?thesis using that by blast
qed

lemma set_frontier: "set (frontier g) = {l. candidate g l}"
  by (auto simp: frontier_def set_indices candidate_def)

lemma scan_indices:
  assumes "\<And>l. in_bounds g l \<Longrightarrow> item g l \<le> m"
  shows "\<exists>v. scan is_adjacent g (indices g) (1 + m, []) = Inr (v, lowest g)"
proof -
  let ?q = "frontier g"
  let ?v = "fold min (map (item g) ?q) (1 + m)"
  have sub: "set (indices g) \<subseteq> {l. in_bounds g l}" by (simp add: set_indices)
  have s: "scan is_adjacent g (indices g) (1 + m, [])
        = Inr (?v, (if ?v < 1 + m then [] else []) @ filter (\<lambda>l. item g l = ?v) ?q)"
    using scan_is_adjacent [OF sub, of "1 + m" "[]"] by (simp add: Let_def frontier_def)
  have below: "item g l < 1 + m" if "l \<in> set ?q" for l
    using that assms [of l] by (simp add: set_frontier candidate_def)
  have "filter (\<lambda>l. item g l = ?v) ?q = lowest g"
    unfolding lowest_def
  proof (rule filter_cong [OF refl])
    fix l assume l: "l \<in> set ?q"
    have le: "?v \<le> item g d" if "d \<in> set ?q" for d
      using that by (intro fold_min_le_elem) simp
    from le [OF l] below [OF l] have "?v \<noteq> 1 + m" by simp
    with fold_min_cases [of "map (item g) ?q" "1 + m"]
    obtain d0 where d0: "d0 \<in> set ?q" "item g d0 = ?v" by auto
    show "(item g l = ?v) = list_all (\<lambda>d. item g l \<le> item g d) ?q"
    proof
      assume "item g l = ?v"
      then show "list_all (\<lambda>d. item g l \<le> item g d) ?q"
        using le by (simp add: list_all_iff)
    next
      assume "list_all (\<lambda>d. item g l \<le> item g d) ?q"
      then have "item g l \<le> item g d0" using d0(1) by (simp add: list_all_iff)
      then have "item g l \<le> ?v" by (simp only: d0(2))
      with le [OF l] show "item g l = ?v" by simp
    qed
  qed
  with s show ?thesis by simp
qed

lemma build_candidates_eq:
  "build_candidates is_adjacent g = (if indices g = [] then Inl ValueError else Inr (lowest g))"
proof (cases "indices g = []")
  case True
  then show ?thesis
    by (simp add: build_candidates_def grid_max_empty)
next
  case False
  then obtain m where m: "grid_max g = Inr m" and le: "\<And>l. in_bounds g l \<Longrightarrow> item g l \<le> m"
    using grid_max_nonempty [of g] by blast
  from scan_indices [OF le] obtain v
    where "scan is_adjacent g (indices g) (1 + m, []) = Inr (v, lowest g)" by blast
  with m False show ?thesis
    by (simp add: build_candidates_def)
qed

lemma choose_next_eq:
  "choose_next g w =
     (if indices g = [] then (Inl ValueError, g, w)
      else (case choice (lowest g) w of (r, w') \<Rightarrow> (r, g, w')))"
  by (simp add: choose_next_def choose_next_with_def build_candidates_eq)


lemma set_lowest:
  "set (lowest g) = {l. candidate g l \<and> (\<forall>d. candidate g d \<longrightarrow> item g l \<le> item g d)}"
  by (auto simp: lowest_def list_all_iff set_frontier)


lemma choose_next_Inr:
  assumes "fst (choose_next g w) = Inr c"
  shows "c \<in> set (lowest g)"
proof -
  from assms have ne: "indices g \<noteq> []"
    by (auto simp: choose_next_eq)
  with assms have "lowest g \<noteq> []"
    by (auto simp: choose_next_eq choice_def)
  with assms ne show ?thesis
    by (auto simp: choose_next_eq choice_def)
qed

subsection \<open>The random choice\<close>

lemma choice_nth:
  "seq \<noteq> [] \<Longrightarrow> fst (choice seq w) = Inr (seq ! (py_random w 0 mod length seq))"
  by (simp add: choice_def)



subsection \<open>Filling cells\<close>

lemma shape_filled_cell [simp]: "shape (filled_cell g c) = shape g"
  by (simp add: filled_cell_def)

lemma in_bounds_filled_cell [simp]: "in_bounds (filled_cell g c) l = in_bounds g l"
  by (simp add: filled_cell_def)

lemma item_filled_cell: "item (filled_cell g c) l = (if l = c then 0 else item g l)"
  by (simp add: filled_cell_def)

lemma grid_size_filled_cell [simp]: "grid_size (filled_cell g c) = grid_size g"
  by (simp add: filled_cell_def)

lemma on_boundary_filled_cell [simp]: "on_boundary (filled_cell g c) l = on_boundary g l"
  by (simp add: on_boundary_def)

lemma fill_filled_cell: "in_bounds g c \<Longrightarrow> fill g c = Inr (filled_cell g c)"
  by (simp add: fill_in_bounds filled_cell_def)

lemma count_filled_filled_cell:
  "in_bounds g c \<Longrightarrow> item g c \<noteq> 0 \<Longrightarrow> count_filled (filled_cell g c) = Suc (count_filled g)"
  by (simp add: filled_cell_def count_filled_fill)

lemma grid_after_append: "grid_after g (cs @ ds) = grid_after (grid_after g cs) ds"
  by (induction cs arbitrary: g) simp_all

lemma fresh_append: "fresh g (cs @ ds) \<longleftrightarrow> fresh g cs \<and> fresh (grid_after g cs) ds"
  by (induction cs arbitrary: g) auto

lemma shape_grid_after [simp]: "shape (grid_after g cs) = shape g"
  by (induction cs arbitrary: g) simp_all

lemma in_bounds_grid_after [simp]: "in_bounds (grid_after g cs) l = in_bounds g l"
  by (simp add: in_bounds_def)

lemma item_grid_after: "item (grid_after g cs) l = (if l \<in> set cs then 0 else item g l)"
  by (induction cs arbitrary: g) (auto simp: item_filled_cell)

lemma fresh_unfilled: "fresh g cs \<Longrightarrow> c \<in> set cs \<Longrightarrow> in_bounds g c \<and> item g c \<noteq> 0"
proof (induction cs arbitrary: g)
  case Nil
  then show ?case by simp
next
  case (Cons d cs)
  show ?case
  proof (cases "c = d")
    case True
    with Cons.prems show ?thesis by simp
  next
    case False
    with Cons.prems have "fresh (filled_cell g d) cs" "c \<in> set cs" by simp_all
    from Cons.IH [OF this] False show ?thesis by (simp add: item_filled_cell)
  qed
qed

lemma fresh_distinct: "fresh g cs \<Longrightarrow> distinct cs"
proof (induction cs arbitrary: g)
  case Nil
  show ?case by simp
next
  case (Cons c cs)
  then have f: "fresh (filled_cell g c) cs" by simp
  have "c \<notin> set cs"
  proof
    assume "c \<in> set cs"
    with f have "item (filled_cell g c) c \<noteq> 0" by (blast dest: fresh_unfilled)
    then show False by (simp add: item_filled_cell)
  qed
  with Cons.IH [OF f] show ?case by simp
qed

lemma fresh_count: "fresh g cs \<Longrightarrow> count_filled (grid_after g cs) = count_filled g + length cs"
  by (induction cs arbitrary: g) (auto simp: count_filled_filled_cell)

lemma grid_after_take_Suc:
  "k < length cs \<Longrightarrow> grid_after g (take (Suc k) cs) = filled_cell (grid_after g (take k cs)) (cs ! k)"
  by (simp add: take_Suc_conv_app_nth grid_after_append)

lemma fresh_nth:
  assumes "fresh g cs" and "k < length cs"
  shows "in_bounds g (cs ! k) \<and> item (grid_after g (take k cs)) (cs ! k) \<noteq> 0"
proof -
  from assms(2) have "cs = take k cs @ cs ! k # drop (Suc k) cs"
    by (simp add: id_take_nth_drop)
  with assms(1) have "fresh g (take k cs @ cs ! k # drop (Suc k) cs)" by simp
  then have "fresh (grid_after g (take k cs)) (cs ! k # drop (Suc k) cs)"
    by (simp only: fresh_append)
  then show ?thesis by simp
qed

subsection \<open>The loop and the driver\<close>

text \<open>What a normal end of the loop says about the cells it filled.\<close>

lemma grow_trace:
  "grow adj g chosen w filled = (Inr (g', filled'), w') \<Longrightarrow>
   \<exists>new. filled' = filled @ new \<and> g' = grid_after g new \<and> fresh g new
        \<and> on_boundary g (last (chosen # new))"
proof (induction adj g chosen w filled rule: grow.induct)
  case (1 adj g chosen w filled)
  show ?case
  proof (cases "on_boundary g chosen")
    case True
    with "1.prems" show ?thesis by (simp add: grow.simps [of adj g chosen])
  next
    case False
    with "1.prems" obtain c g1 w1 where c: "choose_next_with adj g w = (Inr c, g1, w1)"
      by (auto simp: grow.simps [of adj g chosen] split: prod.splits sum.splits)
    from choose_next_with_unfilled [OF c]
    have g1: "g1 = g" and b: "in_bounds g c" and nz: "item g c \<noteq> 0" by simp_all
    have f: "fill g1 c = Inr (filled_cell g c)" using g1 b by (simp add: fill_filled_cell)
    from "1.prems" False c f
    have r: "grow adj (filled_cell g c) c w1 (filled @ [c]) = (Inr (g', filled'), w')"
      by (simp add: grow.simps [of adj g chosen])
    from "1.IH" [OF False c [symmetric] refl refl f r]
    obtain new where n: "filled' = (filled @ [c]) @ new" "g' = grid_after (filled_cell g c) new"
      "fresh (filled_cell g c) new" "on_boundary (filled_cell g c) (last (c # new))"
      by blast
    have "filled' = filled @ (c # new)" using n(1) by simp
    moreover have "g' = grid_after g (c # new)" using n(2) by simp
    moreover have "fresh g (c # new)" using n(3) b nz by simp
    moreover have "on_boundary g (last (chosen # c # new))" using n(4) by simp
    ultimately show ?thesis by blast
  qed
qed






lemma make_grid_Inr:
  assumes "make_grid w sz spread = (Inr g0, w0)"
  shows "0 \<le> sz \<and> 0 < spread \<and> shape g0 = (nat sz, nat sz) \<and> (\<forall>l. 1 \<le> item g0 l)"
  using assms by (auto simp: make_grid_def split: if_splits)

lemma make_grid_valid:
  assumes "0 \<le> sz" and "0 < spread"
  shows "\<exists>g0 w0. make_grid w sz spread = (Inr g0, w0)"
  using assms by (simp add: make_grid_def)

lemma count_filled_unfilled: "(\<And>l. item g l \<noteq> 0) \<Longrightarrow> count_filled g = 0"
  by (simp add: count_filled_def filter_empty_conv)

lemma fill_Inr_in_bounds:
  assumes "fill g (x, y) = Inr g1" and "0 \<le> x" and "0 \<le> y"
  shows "in_bounds g (x, y)"
  using assms by (auto simp: fill_def in_bounds_def index_ok_def split: prod.splits if_splits)

lemma seeded:
  assumes "make_grid w sz spread = (Inr g0, w0)" and "fill g0 (sz div 2, sz div 2) = Inr g1"
  shows "in_bounds g0 (sz div 2, sz div 2) \<and> g1 = filled_cell g0 (sz div 2, sz div 2)
       \<and> count_filled g1 = 1 \<and> loop_inv g1 (sz div 2, sz div 2)"
proof -
  let ?seed = "(sz div 2, sz div 2)"
  from make_grid_Inr [OF assms(1)]
  have sz: "0 \<le> sz" and sh: "shape g0 = (nat sz, nat sz)" and pos: "\<And>l. 1 \<le> item g0 l"
    by blast+
  have nz: "item g0 l \<noteq> 0" for l using pos [of l] by simp
  from sz have "0 \<le> sz div 2" by simp
  with assms(2) have b: "in_bounds g0 ?seed" by (intro fill_Inr_in_bounds) simp_all
  with assms(2) have g1: "g1 = filled_cell g0 ?seed" by (simp add: fill_filled_cell)
  have "count_filled g1 = 1"
    using b nz by (simp add: g1 count_filled_filled_cell count_filled_unfilled)
  moreover have "loop_inv g1 ?seed"
    using b nz by (simp add: loop_inv_def g1 item_filled_cell sh)
  ultimately show ?thesis using b g1 by simp
qed

lemma simulate_grow:
  assumes "make_grid w sz spread = (Inr g0, w0)" and "fill g0 seed = Inr g1"
  shows "simulate adj w sz spread seed = grow adj g1 seed w0 []"
  using assms by (simp add: simulate_def)




text \<open>
  The \<open>percolation\<close> of the testing notebook has the check. It rejects every call in
  which \<open>size\<close> is not a positive odd integer or \<open>spread\<close> is not a positive integer:
  it raises AssertionError, and both generators are as they were before the call. So
  \<open>make_grid\<close>, which allocates the grid and is the first to draw a number, has not run,
  and no step of the simulation has.
\<close>

lemma percolation_rejects:
  assumes "\<not> (\<exists>sz. size_arg = PyInt sz \<and> 0 < sz \<and> odd sz)
         \<or> \<not> (\<exists>spread. spread_arg = PyInt spread \<and> 0 < spread)"
  shows "percolation w size_arg spread_arg = (Inl AssertionError, w)"
proof (cases size_arg)
  case NonInt
  then show ?thesis by (simp add: percolation_def)
next
  case (PyInt sz)
  show ?thesis
  proof (cases "0 < sz \<and> odd sz")
    case False
    with PyInt show ?thesis by (auto simp: percolation_def odd_iff_mod_2_eq_one)
  next
    case True
    with PyInt assms have "\<not> (\<exists>spread. spread_arg = PyInt spread \<and> 0 < spread)" by simp
    then show ?thesis
      by (cases spread_arg) (simp_all add: PyInt percolation_def)
  qed
qed

lemma percolation_rejects_example:
  "percolation (draw 0) (PyInt 4) (PyInt 5) = (Inl AssertionError, draw 0)
   \<and> percolation (draw 0) (PyInt 3) (PyInt 0) = (Inl AssertionError, draw 0)
   \<and> percolation (draw 0) NonInt (PyInt 5) = (Inl AssertionError, draw 0)"
  using percolation_rejects [of "PyInt 4" "PyInt 5" "draw 0"]
    percolation_rejects [of "PyInt 3" "PyInt 0" "draw 0"]
    percolation_rejects [of NonInt "PyInt 5" "draw 0"]
  by simp

section \<open>The claims\<close>

text \<open>
  C1. Whenever \<open>choose_next\<close> succeeds (in either notebook), the location it returns is a
  candidate, that is an unfilled cell in bounds with a filled neighbour, and its value is
  the minimum of the values of all candidates: no candidate has a smaller value.
\<close>

theorem choose_next_minimum:
  assumes "fst (choose_next g w) = Inr c \<or> fst (choose_next0 g w) = Inr c"
  shows "candidate g c
       \<and> item g c = Min (item g ` {d. candidate g d})
       \<and> (\<forall>d. candidate g d \<longrightarrow> item g c \<le> item g d)"
proof -
  from assms have "fst (choose_next g w) = Inr c"
    by (simp add: choose_next0_eq)
  then have "c \<in> set (lowest g)" by (rule choose_next_Inr)
  then have c: "candidate g c" and le: "\<forall>d. candidate g d \<longrightarrow> item g c \<le> item g d"
    by (simp_all add: set_lowest)
  have fin: "finite (item g ` {d. candidate g d})"
    using set_frontier [of g, symmetric] by simp
  have "Min (item g ` {d. candidate g d}) = item g c"
    by (rule Min_eqI [OF fin]) (use c le in auto)
  with c le show ?thesis by simp
qed

theorem choose_next_minimum_witness:
  "fst (choose_next grid_b (draw 0)) = Inr (2, 1)
   \<and> candidate grid_b (2, 1) \<and> candidate grid_b (0, 1)
   \<and> item grid_b (2, 1) = 1 \<and> item grid_b (0, 1) = 2
   \<and> item grid_b (2, 1) = Min (item grid_b ` {d. candidate grid_b d})"
proof -
  have h: "fst (choose_next grid_b (draw 0)) = Inr (2, 1)" by code_simp
  have c: "candidate grid_b (0, 1)" by code_simp
  have v: "item grid_b (2, 1) = 1" "item grid_b (0, 1) = 2" by code_simp+
  from choose_next_minimum [of grid_b "draw 0" "(2, 1)"] h c v show ?thesis by simp
qed



text \<open>
  C3 asks that \<open>percolation\<close> reject a size that is not a positive odd integer before
  a grid is allocated. The \<open>percolation\<close> of the implementation notebook has no argument
  check and does not: called with the even size 4 (and spread 5, on generators that always
  draw 0) it creates a 4 x 4 grid, fills the cell \<open>(2, 2)\<close>, runs the loop twice and
  returns the density \<open>3 / 16\<close>.
\<close>

theorem percolation0_even_size:
  "map_sum id snd (fst (percolation0 (draw 0) 4 5)) = Inr (Finite (3 / 16))"
  by code_simp

text \<open>
  C4, as the specification states it, for the \<open>is_adjacent\<close> of the implementation
  notebook: it does not hold. On the grid \<open>[[0, 0], [1, 1]]\<close> the cell \<open>(0, 0)\<close> is filled
  and in bounds, and \<open>is_adjacent\<close> returns true for it, because its right neighbour is
  filled and the function never looks at the cell itself.
\<close>

theorem is_adjacent0_filled_cell:
  "in_bounds grid_pair (0, 0) \<and> item grid_pair (0, 0) = 0
   \<and> is_adjacent0 grid_pair (0, 0) = Inr True"
  by code_simp

text \<open>
  C4, amended. For every grid and every location in bounds, the \<open>is_adjacent\<close> of the
  testing notebook returns true iff the cell is unfilled and at least one of its up-to-4
  orthogonal neighbours in bounds holds 0, so it returns false for every filled cell. The
  \<open>is_adjacent\<close> of the implementation notebook returns true iff at least one of these
  neighbours holds 0, whether the cell itself is filled or not.
\<close>

theorem is_adjacent_correct:
  assumes "in_bounds g l"
  shows "is_adjacent g l = Inr (item g l \<noteq> 0 \<and> (\<exists>n \<in> set (neighbours g l). item g n = 0))
       \<and> (item g l = 0 \<longrightarrow> is_adjacent g l = Inr False)
       \<and> is_adjacent0 g l = Inr (\<exists>n \<in> set (neighbours g l). item g n = 0)"
  using assms
  by (simp add: is_adjacent_in_bounds is_adjacent0_in_bounds has_filled_neighbour_def list_ex_iff)

theorem is_adjacent_correct_witness:
  "in_bounds grid_c (1, 0) \<and> neighbours grid_c (1, 0) = [(0, 0), (2, 0), (1, 1)]
   \<and> item grid_c (1, 0) = 3 \<and> item grid_c (0, 0) = 0
   \<and> is_adjacent grid_c (1, 0) = Inr True
   \<and> is_adjacent grid_c (0, 0) = Inr False
   \<and> is_adjacent0 grid_c (1, 0) = Inr True"
proof -
  have b: "in_bounds grid_c (1, 0)" "in_bounds grid_c (0, 0)" by code_simp+
  have n: "neighbours grid_c (1, 0) = [(0, 0), (2, 0), (1, 1)]" by code_simp
  have v: "item grid_c (1, 0) = 3" "item grid_c (0, 0) = 0" by code_simp+
  from is_adjacent_correct [OF b(1)] is_adjacent_correct [OF b(2)] b n v show ?thesis
    by simp
qed

text \<open>
  C5. A full run, in either notebook (\<open>simulate\<close> is the body of \<open>percolation\<close> up to its
  \<open>return\<close>, \<open>g1\<close> the grid with the centre filled, \<open>filled\<close> the cells the loop filled
  in order, \<open>g'\<close> the final grid; for the sizes the testing notebook accepts its
  \<open>int(size/2)\<close> is \<open>size div 2\<close>). The centre and the cells filled by the loop are
  pairwise different. The \<open>k\<close>-th iteration fills one cell that is in bounds and unfilled
  in the grid before it, the number of filled cells grows by exactly 1 in it, and every
  cell that is filled before it is filled after it and in the final grid. The final grid
  has \<open>1 + length filled\<close> filled cells.
\<close>

theorem filled_set_only_grows:
  assumes "make_grid w sz spread = (Inr g0, w0)"
    and "seed = (sz div 2, sz div 2)"
    and "fill g0 seed = Inr g1"
    and "simulate adj w sz spread seed = (Inr (g', filled), w')"
  shows "distinct (seed # filled)
       \<and> count_filled g1 = 1
       \<and> g' = grid_after g1 filled
       \<and> count_filled g' = 1 + length filled
       \<and> (\<forall>k < length filled.
            in_bounds g1 (filled ! k)
          \<and> item (grid_after g1 (take k filled)) (filled ! k) \<noteq> 0
          \<and> fill (grid_after g1 (take k filled)) (filled ! k) = Inr (grid_after g1 (take (Suc k) filled))
          \<and> count_filled (grid_after g1 (take (Suc k) filled))
              = count_filled (grid_after g1 (take k filled)) + 1
          \<and> (\<forall>l. item (grid_after g1 (take k filled)) l = 0
                 \<longrightarrow> item (grid_after g1 (take (Suc k) filled)) l = 0 \<and> item g' l = 0))"
proof -
  from seeded [OF assms(1) assms(3) [unfolded assms(2)]]
  have b: "in_bounds g0 seed" and g1: "g1 = filled_cell g0 seed" and c1: "count_filled g1 = 1"
    unfolding assms(2) by blast+
  from assms(4) have "grow adj g1 seed w0 [] = (Inr (g', filled), w')"
    by (simp add: simulate_grow [OF assms(1) assms(3)])
  from grow_trace [OF this]
  have g': "g' = grid_after g1 filled" and fr: "fresh g1 filled" by auto
  have "seed \<notin> set filled"
  proof
    assume "seed \<in> set filled"
    with fr have "item g1 seed \<noteq> 0" by (blast dest: fresh_unfilled)
    then show False by (simp add: g1 item_filled_cell)
  qed
  then have d: "distinct (seed # filled)" using fresh_distinct [OF fr] by simp
  have n: "count_filled g' = 1 + length filled"
    using fresh_count [OF fr] by (simp add: g' c1)
  have step: "in_bounds g1 (filled ! k)
          \<and> item (grid_after g1 (take k filled)) (filled ! k) \<noteq> 0
          \<and> fill (grid_after g1 (take k filled)) (filled ! k) = Inr (grid_after g1 (take (Suc k) filled))
          \<and> count_filled (grid_after g1 (take (Suc k) filled))
              = count_filled (grid_after g1 (take k filled)) + 1
          \<and> (\<forall>l. item (grid_after g1 (take k filled)) l = 0
                 \<longrightarrow> item (grid_after g1 (take (Suc k) filled)) l = 0 \<and> item g' l = 0)"
    if k: "k < length filled" for k
  proof -
    let ?before = "grid_after g1 (take k filled)"
    from fresh_nth [OF fr k]
    have bk: "in_bounds g1 (filled ! k)" and nz: "item ?before (filled ! k) \<noteq> 0" by simp_all
    have bk': "in_bounds ?before (filled ! k)" using bk by simp
    have s: "grid_after g1 (take (Suc k) filled) = filled_cell ?before (filled ! k)"
      using k by (rule grid_after_take_Suc)
    have "fill ?before (filled ! k) = Inr (grid_after g1 (take (Suc k) filled))"
      using bk' by (simp add: s fill_filled_cell)
    moreover have "count_filled (grid_after g1 (take (Suc k) filled)) = count_filled ?before + 1"
      using bk' nz by (simp add: s count_filled_filled_cell)
    moreover have "item (grid_after g1 (take (Suc k) filled)) l = 0 \<and> item g' l = 0"
      if "item ?before l = 0" for l
    proof -
      have "set (take k filled) \<subseteq> set filled" by (rule set_take_subset)
      with that have "item g' l = 0" by (auto simp: g' item_grid_after split: if_splits)
      moreover from that have "item (grid_after g1 (take (Suc k) filled)) l = 0"
        by (simp add: s item_filled_cell)
      ultimately show ?thesis by simp
    qed
    ultimately show ?thesis using bk nz by blast
  qed
  from d c1 g' n step show ?thesis by blast
qed

theorem filled_set_only_grows_witness:
  "map_sum id snd (fst (simulate is_adjacent0 (draw 0) 4 5 (2, 2))) = Inr [(1, 2), (0, 2)]
   \<and> map_sum id (\<lambda>r. count_filled (fst r)) (fst (simulate is_adjacent0 (draw 0) 4 5 (2, 2))) = Inr 3
   \<and> distinct [(2 :: int, 2 :: int), (1, 2), (0, 2)]"
proof -
  have r: "map_sum id snd (fst (simulate is_adjacent0 (draw 0) 4 5 (2, 2))) = Inr [(1, 2), (0, 2)]"
    by code_simp
  then obtain g' w' where s: "simulate is_adjacent0 (draw 0) 4 5 (2, 2) = (Inr (g', [(1, 2), (0, 2)]), w')"
    by (cases "simulate is_adjacent0 (draw 0) 4 5 (2, 2)"; cases "fst (simulate is_adjacent0 (draw 0) 4 5 (2, 2))")
      auto
  obtain g0 w0 where m: "make_grid (draw 0) 4 5 = (Inr g0, w0)"
    using make_grid_valid [of 4 5 "draw 0"] by auto
  from make_grid_Inr [OF m] have "in_bounds g0 (2, 2)"
    by (simp add: in_bounds_def)
  then have f: "fill g0 (2, 2) = Inr (filled_cell g0 (2, 2))"
    by (rule fill_filled_cell)
  have e: "(2, 2) = ((4 :: int) div 2, (4 :: int) div 2)" by simp
  note t = filled_set_only_grows [OF m e f s]
  from t have d: "distinct ((2 :: int, 2 :: int) # [(1, 2), (0, 2)])"
    by (rule conjunct1)
  from t have "count_filled g' = 1 + length [(1 :: int, 2 :: int), (0, 2)]"
    by (elim conjE)
  then have c: "count_filled g' = 3" by simp
  have "map_sum id (\<lambda>r. count_filled (fst r)) (fst (simulate is_adjacent0 (draw 0) 4 5 (2, 2))) = Inr 3"
    by (simp add: s c)
  with r d show ?thesis by simp
qed





text \<open>
  C8, as the specification states it: it does not hold. The density is a float, the
  rounded quotient. On a 5 x 5 grid with 7 filled cells \<open>calculate_density\<close> returns the
  double nearest to \<open>7 / 25\<close>, which is \<open>1261007895663739 / 2\<^sup>5\<^sup>2\<close>; that number times
  25 is not 7, and the float product of the two is not 7 either (it is \<open>7 + 2\<^sup>-\<^sup>5\<^sup>0\<close>).
\<close>

theorem density_times_size_not_count:
  "grid_size grid_seven = 25 \<and> count_filled grid_seven = 7
   \<and> calculate_density grid_seven = Finite (1261007895663739 / 4503599627370496)
   \<and> (1261007895663739 / 4503599627370496 :: rat) * 25 \<noteq> 7
   \<and> float_round (1261007895663739 / 4503599627370496 * 25) = 7 + 1 / 2 ^ 50"
  by code_simp

text \<open>
  C8, amended. For every grid of \<open>N\<close> x \<open>N\<close> cells, \<open>N > 0\<close>, \<open>calculate_density\<close>
  returns the double nearest to the number of cells equal to 0 divided by \<open>N\<^sup>2\<close>. The
  result times \<open>N\<^sup>2\<close> is the number of filled cells up to the rounding error of the
  division, which is at most that number times \<open>2\<^sup>-\<^sup>5\<^sup>3\<close>. The result lies in
  \<open>[0, 1]\<close>, and in \<open>(0, 1]\<close> as soon as one cell is filled.
\<close>

theorem calculate_density_rounded:
  assumes "shape g = (n, n)" and "0 < n"
  shows "\<exists>d. calculate_density g = Finite d
           \<and> d = float_round (rat_of_nat (count_filled g) / rat_of_nat (n * n))
           \<and> count_filled g = card {l. in_bounds g l \<and> item g l = 0}
           \<and> \<bar>d * rat_of_nat (n * n) - rat_of_nat (count_filled g)\<bar> \<le> rat_of_nat (count_filled g) / 2 ^ 53
           \<and> 0 \<le> d \<and> d \<le> 1
           \<and> ((\<exists>l. in_bounds g l \<and> item g l = 0) \<longrightarrow> 0 < d)"
proof -
  let ?c = "rat_of_nat (count_filled g)" and ?s = "rat_of_nat (n * n)"
  define d where "d = float_round (?c / ?s)"
  have gs: "grid_size g = n * n" by (simp add: grid_size_def assms(1))
  have s0: "0 < ?s" using assms(2) by simp
  have dens: "calculate_density g = Finite d"
    using assms(2) by (simp add: calculate_density_def gs d_def)
  have cle: "?c \<le> ?s" using count_filled_le [of g] by (simp only: gs of_nat_le_iff)
  have main: "\<bar>d * ?s - ?c\<bar> \<le> ?c / 2 ^ 53 \<and> 0 \<le> d \<and> d \<le> 1 \<and> (0 < count_filled g \<longrightarrow> 0 < d)"
  proof (cases "count_filled g = 0")
    case True
    then show ?thesis by (simp add: d_def float_round_def)
  next
    case False
    then have c0: "0 < ?c" by simp
    then have q0: "0 < ?c / ?s" using s0 by simp
    have q1: "?c / ?s \<le> 1" using cle s0 by (simp add: pos_divide_le_eq)
    from float_round_unit [OF q0 q1]
    have p: "0 < d" and l: "d \<le> 1" and e: "\<bar>d - ?c / ?s\<bar> \<le> ?c / ?s / 2 ^ 53"
      by (simp_all add: d_def)
    have "d * ?s - ?c = (d - ?c / ?s) * ?s" using assms(2) by (simp add: algebra_simps)
    then have "\<bar>d * ?s - ?c\<bar> = \<bar>d - ?c / ?s\<bar> * ?s" using s0 by (simp add: abs_mult)
    also have "\<dots> \<le> (?c / ?s / 2 ^ 53) * ?s"
      using e s0 by (intro mult_right_mono) simp_all
    also have "\<dots> = ?c / 2 ^ 53" using assms(2) by simp
    finally show ?thesis using p l by simp
  qed
  have card: "count_filled g = card {l. in_bounds g l \<and> item g l = 0}"
    by (rule count_filled_card)
  have cp: "0 < count_filled g" if "\<exists>l. in_bounds g l \<and> item g l = 0"
  proof -
    from that have "{l. in_bounds g l \<and> item g l = 0} \<noteq> {}" by blast
    moreover have "finite {l. in_bounds g l \<and> item g l = 0}"
      using finite_in_bounds [of g] by simp
    ultimately show ?thesis by (simp add: card card_gt_0_iff)
  qed
  have pos: "(\<exists>l. in_bounds g l \<and> item g l = 0) \<longrightarrow> 0 < d"
  proof
    assume "\<exists>l. in_bounds g l \<and> item g l = 0"
    then have "0 < count_filled g" by (rule cp)
    with main show "0 < d" by simp
  qed
  have "calculate_density g = Finite d
           \<and> d = float_round (?c / ?s)
           \<and> count_filled g = card {l. in_bounds g l \<and> item g l = 0}
           \<and> \<bar>d * ?s - ?c\<bar> \<le> ?c / 2 ^ 53
           \<and> 0 \<le> d \<and> d \<le> 1
           \<and> ((\<exists>l. in_bounds g l \<and> item g l = 0) \<longrightarrow> 0 < d)"
    using dens card main pos d_def by (intro conjI) simp_all
  then show ?thesis ..
qed

theorem calculate_density_rounded_witness:
  "\<exists>d. calculate_density grid_seven = Finite d
           \<and> d = float_round (rat_of_nat (count_filled grid_seven) / rat_of_nat (5 * 5))
           \<and> count_filled grid_seven = card {l. in_bounds grid_seven l \<and> item grid_seven l = 0}
           \<and> \<bar>d * rat_of_nat (5 * 5) - rat_of_nat (count_filled grid_seven)\<bar>
               \<le> rat_of_nat (count_filled grid_seven) / 2 ^ 53
           \<and> 0 \<le> d \<and> d \<le> 1 \<and> 0 < d
           \<and> in_bounds grid_seven (2, 2) \<and> item grid_seven (2, 2) = 0"
proof -
  have s: "shape grid_seven = (5, 5)" by code_simp
  have z: "in_bounds grid_seven (2, 2)" "item grid_seven (2, 2) = 0" by code_simp+
  then have "\<exists>l. in_bounds grid_seven l \<and> item grid_seven l = 0" by blast
  with calculate_density_rounded [OF s] z show ?thesis by auto
qed

text \<open>
  C9. In either notebook, a call of \<open>choose_next\<close> leaves the array as it found it, and a
  result it returns is one location of the grid (a pair of coordinates in bounds).
  NumPy's generator is not used either.
\<close>

theorem choose_next_leaves_grid:
  assumes "choose_next g w = (r, g', w') \<or> choose_next0 g w = (r, g', w')"
  shows "g' = g \<and> np_random w' = np_random w \<and> (\<forall>c. r = Inr c \<longrightarrow> in_bounds g c)"
proof -
  from assms have c: "choose_next g w = (r, g', w')"
    by (simp add: choose_next0_eq)
  then have "g' = g" "np_random w' = np_random w"
    by (auto simp: choose_next_def choose_next_with_def choice_def split: sum.splits if_splits)
  moreover have "in_bounds g c" if "r = Inr c" for c
  proof -
    from c that have "fst (choose_next g w) = Inr c" by simp
    then have "c \<in> set (lowest g)" by (rule choose_next_Inr)
    then show ?thesis by (simp add: set_lowest candidate_def)
  qed
  ultimately show ?thesis by blast
qed

theorem choose_next_leaves_grid_witness:
  "choose_next grid_a (draw 0) = (Inr (0, 1), grid_a, draw 0) \<and> in_bounds grid_a (0, 1)"
proof -
  have l: "lowest grid_a = [(0, 1)]" by code_simp
  have i: "indices grid_a \<noteq> []" by code_simp
  have h: "choose_next grid_a (draw 0) = (Inr (0, 1), grid_a, draw 0)"
    by (simp add: choose_next_eq i l choice_def draw_def)
  from choose_next_leaves_grid [of grid_a "draw 0" "Inr (0, 1)" grid_a "draw 0"] h
  show ?thesis by simp
qed

text \<open>
  C10. The \<open>choose_next\<close> of the implementation notebook (whose \<open>is_adjacent\<close> has no test
  of the cell itself) and the \<open>choose_next\<close> of the testing notebook (whose \<open>is_adjacent\<close>
  returns false on a filled cell) agree on every grid: from any point of the scan on they
  compute the same value and the same candidate list, because the scan skips a cell equal
  to 0 before it calls \<open>is_adjacent\<close>; so they hand the same list to \<open>random.choice\<close>,
  return the same result and leave the same grid and generators.
\<close>

theorem choose_next_versions_agree:
  "scan is_adjacent0 g ls st = scan is_adjacent g ls st
   \<and> build_candidates is_adjacent0 g = build_candidates is_adjacent g
   \<and> choose_next0 g w = choose_next g w"
proof (intro conjI)
  show s: "scan is_adjacent0 g ls st = scan is_adjacent g ls st" for ls st
  proof (induction ls arbitrary: st)
    case Nil
    show ?case by simp
  next
    case (Cons l ls)
    obtain val candidates where st: "st = (val, candidates)" by (cases st)
    show ?case
      by (cases "getitem g l") (auto simp: st Cons.IH is_adjacent_unfilled split: sum.splits)
  qed
  show b: "build_candidates is_adjacent0 g = build_candidates is_adjacent g"
    by (simp add: build_candidates_def s cong: sum.case_cong)
  show "choose_next0 g w = choose_next g w"
    by (simp add: choose_next0_def choose_next_def choose_next_with_def b)
qed

end
